theory Spec2Isabelle
  imports Complex_Main
begin

section \<open>Shared vocabulary\<close>

text \<open>
  Python strings are modelled as \<^typ>\<open>string\<close>, one \<^typ>\<open>char\<close> per code point below
  256.  The outcome of one HTTP request made through \<open>requests\<close> is one of: a transport
  failure (\<open>requests.RequestException\<close>), a response whose \<open>ok\<close> flag is false (with
  its status code), or a successful response carrying the decoded JSON body.
\<close>

datatype 'a http = TransportError string | HttpStatus nat | HttpOk 'a

text \<open>
  Every \<open>sys.exit(1)\<close> of the scripts is a value of this type: the process stops with
  exit code 1 after printing the message the constructor stands for.
\<close>

datatype error =
    StatusCheckFailed string        \<comment> \<open>\<open>ERROR: Failed to check job status: e\<close>\<close>
  | StatusHttpError nat             \<comment> \<open>\<open>ERROR: Job status check failed (HTTP code)\<close>\<close>
  | QueryFailed string              \<comment> \<open>\<open>ERROR: Query failed: msg\<close>\<close>
  | QueryCanceled                   \<comment> \<open>\<open>ERROR: Query was canceled.\<close>\<close>
  | QueryTimedOut real string       \<comment> \<open>\<open>ERROR: Query timed out after timeout s (state: state)\<close>\<close>
  | FetchFailed int string          \<comment> \<open>\<open>ERROR: Failed to fetch results at offset o: e\<close>\<close>
  | FetchHttpError nat              \<comment> \<open>\<open>ERROR: Result fetch failed (HTTP code)\<close>\<close>
  | EnvFileNotFound                 \<comment> \<open>uncaught \<open>FileNotFoundError\<close> of \<open>parse_env_file\<close>\<close>
  | MissingVariables "string list"  \<comment> \<open>\<open>ERROR: Missing required .env variables: \<close> and the keys, joined by \<open>, \<close>\<close>

section \<open>Polling a job: \<open>wait_for_job\<close> (dremio\_export.py)\<close>

text \<open>
  The JSON body of a job-status response, restricted to the keys the script reads.  A key
  that is absent from the body is \<open>None\<close>.
\<close>

record job_data =
  jobState :: "string option"
  errorMessage :: "string option"
  rowCount :: "int option"

text \<open>
  One turn of the \<open>while True\<close> loop sees the world twice: the answer to its GET request
  and, when the loop gets that far, the value of \<open>time.time()\<close>.  The world is a script of
  such observations, one per turn.  Clock readings are real numbers (the rounding of the
  float subtraction is not modelled); nothing is assumed about them.
\<close>

record poll_event =
  response :: "job_data http"
  clock :: real

text \<open>The effects of the loop that the outside can see, in the order they happen.\<close>

datatype effect = Get | ReadClock | Sleep real

definition terminal_states :: "string set" where
  "terminal_states = {''COMPLETED'', ''FAILED'', ''CANCELED''}"

definition state_of :: "job_data \<Rightarrow> string" where
  "state_of data = (case jobState data of None \<Rightarrow> ''UNKNOWN'' | Some s \<Rightarrow> s)"

text \<open>
  The loop, by recursion on the script.  \<open>None\<close> as outcome means that the script ended
  while the loop was still polling: the call has not returned.  The second component is
  the trace of effects so far.
\<close>

fun wait_loop ::
  "real \<Rightarrow> real \<Rightarrow> real \<Rightarrow> poll_event list \<Rightarrow> effect list
     \<Rightarrow> (error + job_data) option \<times> effect list" where
  "wait_loop start timeout poll_interval [] tr = (None, tr)"
| "wait_loop start timeout poll_interval (ev # evs) tr =
     (case response ev of
        TransportError e \<Rightarrow> (Some (Inl (StatusCheckFailed e)), tr @ [Get])
      | HttpStatus code \<Rightarrow> (Some (Inl (StatusHttpError code)), tr @ [Get])
      | HttpOk data \<Rightarrow>
          (let state = state_of data in
           if state \<in> terminal_states \<and> state = ''COMPLETED''
             then (Some (Inr data), tr @ [Get])
           else if state \<in> terminal_states \<and> state = ''FAILED''
             then (Some (Inl (QueryFailed
                     (case errorMessage data of None \<Rightarrow> ''Unknown error'' | Some m \<Rightarrow> m))),
                   tr @ [Get])
           else if state \<in> terminal_states \<and> state = ''CANCELED''
             then (Some (Inl QueryCanceled), tr @ [Get])
           else
             (let elapsed = clock ev - start in
              if elapsed \<ge> timeout
                then (Some (Inl (QueryTimedOut timeout state)), tr @ [Get, ReadClock])
              else wait_loop start timeout poll_interval evs
                     (tr @ [Get, ReadClock, Sleep poll_interval]))))"

text \<open>
  \<open>wait_for_job\<close> reads the clock once (\<open>start\<close>) and enters the loop.
\<close>

definition wait_for_job ::
  "real \<Rightarrow> real \<Rightarrow> real \<Rightarrow> poll_event list \<Rightarrow> (error + job_data) option \<times> effect list" where
  "wait_for_job start timeout poll_interval evs =
     wait_loop start timeout poll_interval evs [ReadClock]"

text \<open>An observation of a job that is still pending, before the timeout.\<close>

definition pending :: "real \<Rightarrow> real \<Rightarrow> poll_event \<Rightarrow> bool" where
  "pending start timeout ev =
     (case response ev of
        HttpOk data \<Rightarrow> state_of data \<notin> terminal_states \<and> clock ev - start < timeout
      | _ \<Rightarrow> False)"

section \<open>Paging through results: \<open>fetch_all_results\<close> (dremio\_export.py)\<close>

text \<open>
  The JSON body of a results page, restricted to the keys the script reads: \<open>schema\<close>
  (already reduced to the \<open>name\<close> of each field) and \<open>rows\<close> (here \<open>page_rows\<close>).  A key that is absent
  from the body is \<open>None\<close>.  Rows are opaque here.  Bodies that are not of this shape (a
  schema field without a name) are not modelled.
\<close>

record 'r page =
  schema :: "string list option"
  page_rows :: "'r list option"

text \<open>
  The server answers the \<open>n\<close>-th results request of a call (counted from 0) for a given
  \<open>offset\<close> and \<open>limit\<close>.  It may answer the same request differently at different
  times.
\<close>

type_synonym 'r server = "nat \<Rightarrow> int \<Rightarrow> int \<Rightarrow> 'r page http"

text \<open>A request is logged as its \<open>(offset, limit)\<close> pair.\<close>

type_synonym request = "int \<times> int"

definition rows_of :: "'r page \<Rightarrow> 'r list" where
  "rows_of data = (case page_rows data of None \<Rightarrow> [] | Some rs \<Rightarrow> rs)"

text \<open>
  \<open>if not columns and "schema" in data: columns = [...]\<close>: an empty column list counts
  as not captured yet.
\<close>

definition capture :: "string list \<Rightarrow> 'r page \<Rightarrow> string list" where
  "capture columns data =
     (if columns = [] \<and> schema data \<noteq> None then the (schema data) else columns)"

text \<open>
  The \<open>while\<close> loop.  Its state is \<open>columns\<close>, \<open>all_rows\<close>, \<open>offset\<close> and the log of the
  requests made so far.  The loop is not bounded by its data (with \<open>page_size = 0\<close> it
  never ends), so it is a partial function: \<open>None\<close> is a loop that runs forever.
\<close>

partial_function (option) fetch_loop ::
  "'r server \<Rightarrow> int \<Rightarrow> int \<Rightarrow> string list \<Rightarrow> 'r list \<Rightarrow> int \<Rightarrow> request list
     \<Rightarrow> ((error + string list \<times> 'r list) \<times> request list) option" where
  "fetch_loop srv row_count page_size columns all_rows offset reqs =
     (if offset \<le> max (row_count - 1) 0 then
        (case srv (length reqs) offset page_size of
           TransportError e \<Rightarrow> Some (Inl (FetchFailed offset e), reqs @ [(offset, page_size)])
         | HttpStatus code \<Rightarrow> Some (Inl (FetchHttpError code), reqs @ [(offset, page_size)])
         | HttpOk data \<Rightarrow>
             if int (length (rows_of data)) < page_size
               then Some (Inr (capture columns data, all_rows @ rows_of data),
                          reqs @ [(offset, page_size)])
             else fetch_loop srv row_count page_size (capture columns data)
                    (all_rows @ rows_of data) (offset + page_size)
                    (reqs @ [(offset, page_size)]))
      else Some (Inr (columns, all_rows), reqs))"

text \<open>
  The zero-row fallback after the loop: one request at offset 0 with limit 1, whose failure
  is swallowed.
\<close>

definition recover_schema ::
  "'r server \<Rightarrow> string list \<Rightarrow> request list \<Rightarrow> string list \<times> request list" where
  "recover_schema srv columns reqs =
     (case srv (length reqs) 0 1 of
        HttpOk data \<Rightarrow>
          (case schema data of
             Some names \<Rightarrow> (names, reqs @ [(0, 1)])
           | None \<Rightarrow> (columns, reqs @ [(0, 1)]))
      | _ \<Rightarrow> (columns, reqs @ [(0, 1)]))"

definition fetch_all_results ::
  "'r server \<Rightarrow> int \<Rightarrow> int \<Rightarrow> ((error + string list \<times> 'r list) \<times> request list) option" where
  "fetch_all_results srv row_count page_size =
     (case fetch_loop srv row_count page_size [] [] 0 [] of
        None \<Rightarrow> None
      | Some (Inl e, reqs) \<Rightarrow> Some (Inl e, reqs)
      | Some (Inr (columns, all_rows), reqs) \<Rightarrow>
          if columns = [] \<and> row_count = 0
            then (case recover_schema srv columns reqs of
                    (columns', reqs') \<Rightarrow> Some (Inr (columns', all_rows), reqs'))
          else Some (Inr (columns, all_rows), reqs))"

declare fetch_loop.simps [code]

text \<open>
  A well-behaved server holds the result set \<open>table\<close> and answers every request with the
  slice asked for, so that only the last page can be short; \<open>sch n\<close> is the schema its
  \<open>n\<close>-th answer carries, if any.
\<close>

definition well_behaved :: "'r server \<Rightarrow> (nat \<Rightarrow> string list option) \<Rightarrow> 'r list \<Rightarrow> bool" where
  "well_behaved srv sch table =
     (\<forall>n offset limit. srv n offset limit =
        HttpOk \<lparr>schema = sch n, page_rows = Some (take (nat limit) (drop (nat offset) table))\<rparr>)"

text \<open>
  The first schema among those of the pages, in fetch order; a page without the key, or
  with a schema of no columns, carries none.
\<close>

fun first_schema :: "string list option list \<Rightarrow> string list" where
  "first_schema [] = []"
| "first_schema (None # ss) = first_schema ss"
| "first_schema (Some names # ss) = (if names = [] then first_schema ss else names)"

text \<open>The number of pages of \<open>p\<close> rows that \<open>r\<close> rows fill.\<close>

definition page_count :: "nat \<Rightarrow> nat \<Rightarrow> nat" where
  "page_count r p = (r + p - 1) div p"

section \<open>Python string operations\<close>

definition dquote :: char where
  "dquote = CHR 0x22"

definition squote :: char where
  "squote = CHR 0x27"

text \<open>\<open>str.isspace\<close> on the code points below 256.\<close>

definition py_isspace :: "char \<Rightarrow> bool" where
  "py_isspace c = ((of_char c :: nat) \<in> {9, 10, 11, 12, 13, 28, 29, 30, 31, 32, 133, 160})"

definition lstrip_chars :: "(char \<Rightarrow> bool) \<Rightarrow> string \<Rightarrow> string" where
  "lstrip_chars P s = dropWhile P s"

definition rstrip_chars :: "(char \<Rightarrow> bool) \<Rightarrow> string \<Rightarrow> string" where
  "rstrip_chars P s = rev (dropWhile P (rev s))"

definition strip_chars :: "(char \<Rightarrow> bool) \<Rightarrow> string \<Rightarrow> string" where
  "strip_chars P s = rstrip_chars P (lstrip_chars P s)"

text \<open>\<open>s.strip()\<close> and \<open>s.strip(c)\<close> for a one-character argument.\<close>

definition py_strip :: "string \<Rightarrow> string" where
  "py_strip s = strip_chars py_isspace s"

definition py_strip_char :: "char \<Rightarrow> string \<Rightarrow> string" where
  "py_strip_char c s = strip_chars (\<lambda>x. x = c) s"

text \<open>\<open>s.split(sep)\<close> for a one-character separator.\<close>

fun split_from :: "char \<Rightarrow> string \<Rightarrow> string \<Rightarrow> string list" where
  "split_from sep current [] = [current]"
| "split_from sep current (c # cs) =
     (if c = sep then current # split_from sep [] cs
      else split_from sep (current @ [c]) cs)"

definition py_split :: "char \<Rightarrow> string \<Rightarrow> string list" where
  "py_split sep s = split_from sep [] s"

text \<open>\<open>sep.join(parts)\<close>.\<close>

fun py_join :: "string \<Rightarrow> string list \<Rightarrow> string" where
  "py_join sep [] = []"
| "py_join sep [s] = s"
| "py_join sep (s # t # ts) = s @ sep @ py_join sep (t # ts)"

text \<open>\<open>s.replace(c, c + c)\<close> for a one-character \<open>c\<close>.\<close>

definition py_double :: "char \<Rightarrow> string \<Rightarrow> string" where
  "py_double c s = concat (map (\<lambda>x. if x = c then [c, c] else [x]) s)"

text \<open>
  \<open>str.lower\<close> on the code points below 256: the ASCII capitals and the Latin-1 capitals
  (192 to 222 without the multiplication sign 215) move up by 32.
\<close>

definition lower_char :: "char \<Rightarrow> char" where
  "lower_char c =
     (let n = (of_char c :: nat) in
      if (65 \<le> n \<and> n \<le> 90) \<or> (192 \<le> n \<and> n \<le> 222 \<and> n \<noteq> 215)
        then char_of (n + 32) else c)"

definition py_lower :: "string \<Rightarrow> string" where
  "py_lower s = map lower_char s"

section \<open>Catalog paths: \<open>_parse_path\<close> (dremio\_export.py)\<close>

text \<open>One turn of the character loop of the quoted branch.\<close>

fun quote_step :: "char \<Rightarrow> string list \<times> string \<times> bool \<Rightarrow> string list \<times> string \<times> bool" where
  "quote_step ch (segments, current, in_quotes) =
     (if ch = dquote then (segments, current, \<not> in_quotes)
      else if ch = CHR ''.'' \<and> \<not> in_quotes then
        (if current \<noteq> [] then (segments @ [current], [], in_quotes)
         else (segments, current, in_quotes))
      else (segments, current @ [ch], in_quotes))"

definition parse_path :: "string \<Rightarrow> string list" where
  "parse_path path =
     (if CHR ''/'' \<in> set path then
        map (\<lambda>seg. py_strip_char squote (py_strip_char dquote (py_strip seg)))
          (filter (\<lambda>seg. py_strip seg \<noteq> []) (py_split CHR ''/'' path))
      else if dquote \<in> set path then
        (case fold quote_step path ([], [], False) of
           (segments, current, in_quotes) \<Rightarrow>
             if current \<noteq> [] then segments @ [current] else segments)
      else py_split CHR ''.'' path)"

text \<open>
  The quoted-dot notation of a segment list: every segment in double quotes, the segments
  joined by dots.
\<close>

definition quoted :: "string \<Rightarrow> string" where
  "quoted seg = dquote # seg @ [dquote]"

definition quoted_path :: "string list \<Rightarrow> string" where
  "quoted_path segs = py_join ''.'' (map quoted segs)"

text \<open>
  What a segment in double quotes can hold and \<open>parse_path\<close> still reads as quoted: no
  double quote (the notation has no escape for it) and no slash.
\<close>

definition plain_segment :: "string \<Rightarrow> bool" where
  "plain_segment seg = (dquote \<notin> set seg \<and> CHR ''/'' \<notin> set seg)"

section \<open>Writing CSV: \<open>write_csv\<close> (dremio\_export.py) and \<open>export_view_to_csv\<close>
  (sqlserver\_view\_export.py)\<close>

text \<open>
  A cell value as the scripts meet it: \<open>None\<close>, a string, or a number.  A row of the REST
  engine is a JSON object, kept as the list of its fields; looking a field up is
  \<^const>\<open>map_of\<close>.  A row of the relational database is positional.
\<close>

datatype pyval = PyNone | PyStr string | PyInt int

type_synonym rowdict = "(string \<times> pyval) list"

text \<open>\<open>str(n)\<close> for an integer.\<close>

fun digits :: "nat \<Rightarrow> string" where
  "digits n = (if n < 10 then [char_of (48 + n)] else digits (n div 10) @ [char_of (48 + n mod 10)])"

definition py_str_int :: "int \<Rightarrow> string" where
  "py_str_int i = (if i < 0 then CHR ''-'' # digits (nat (- i)) else digits (nat i))"

text \<open>
  The file is the list of the records handed to \<open>csv.writer.writerow\<close>, each record the
  list of its fields as text; how the library quotes a field and ends a line is its own
  business.  The library writes \<open>None\<close> as the empty field, a string as it is and
  anything else through \<open>str\<close>.
\<close>

type_synonym csv_file = "string list list"

definition csv_field :: "pyval \<Rightarrow> string" where
  "csv_field v = (case v of PyNone \<Rightarrow> [] | PyStr s \<Rightarrow> s | PyInt i \<Rightarrow> py_str_int i)"

definition writer_writerow :: "csv_file \<Rightarrow> pyval list \<Rightarrow> csv_file" where
  "writer_writerow file cells = file @ [map csv_field cells]"

text \<open>
  \<open>csv.DictWriter\<close>: its field names, the value it writes for a missing key and what it
  does with a key that is not a field name.
\<close>

datatype extrasaction = Raise | Ignore

record dictwriter =
  fieldnames :: "string list"
  restval :: pyval
  extras :: extrasaction

datatype csv_error = ValueError "string list"

definition dict_to_list :: "dictwriter \<Rightarrow> rowdict \<Rightarrow> csv_error + pyval list" where
  "dict_to_list w rowdict =
     (let wrong_fields = filter (\<lambda>k. k \<notin> set (fieldnames w)) (map fst rowdict) in
      if extras w = Raise \<and> wrong_fields \<noteq> [] then Inl (ValueError wrong_fields)
      else Inr (map (\<lambda>key. case map_of rowdict key of None \<Rightarrow> restval w | Some v \<Rightarrow> v)
                  (fieldnames w)))"

definition dictwriter_writerow :: "dictwriter \<Rightarrow> csv_file \<Rightarrow> rowdict \<Rightarrow> csv_error + csv_file" where
  "dictwriter_writerow w file rowdict =
     (case dict_to_list w rowdict of
        Inl e \<Rightarrow> Inl e
      | Inr cells \<Rightarrow> Inr (writer_writerow file cells))"

definition dictwriter_writeheader :: "dictwriter \<Rightarrow> csv_file \<Rightarrow> csv_error + csv_file" where
  "dictwriter_writeheader w file =
     dictwriter_writerow w file (map (\<lambda>name. (name, PyStr name)) (fieldnames w))"

fun write_rows :: "dictwriter \<Rightarrow> csv_file \<Rightarrow> rowdict list \<Rightarrow> csv_error + csv_file" where
  "write_rows w file [] = Inr file"
| "write_rows w file (row # rows) =
     (case dictwriter_writerow w file row of
        Inl e \<Rightarrow> Inl e
      | Inr file' \<Rightarrow> write_rows w file' rows)"

definition write_csv :: "string list \<Rightarrow> rowdict list \<Rightarrow> csv_error + csv_file" where
  "write_csv columns rows =
     (let writer = \<lparr>fieldnames = columns, restval = PyStr [], extras = Ignore\<rparr> in
      case dictwriter_writeheader writer [] of
        Inl e \<Rightarrow> Inl e
      | Inr file \<Rightarrow> write_rows writer file rows)"

text \<open>What one line of \<open>write_csv\<close> shows of a row: the field of each column, in order.\<close>

definition project :: "string list \<Rightarrow> rowdict \<Rightarrow> string list" where
  "project columns row =
     map (\<lambda>c. case map_of row c of None \<Rightarrow> [] | Some v \<Rightarrow> csv_field v) columns"

text \<open>
  The writing part of \<open>export_view_to_csv\<close>: the header, then every row cleaned value by
  value.  (The \<open>encode\<close>/\<open>decode\<close> round trip leaves a string of code points below 256 as
  it is.)
\<close>

definition clean_value :: "pyval \<Rightarrow> pyval" where
  "clean_value val =
     (case val of PyNone \<Rightarrow> PyStr [] | PyStr s \<Rightarrow> PyStr s | PyInt i \<Rightarrow> PyStr (py_str_int i))"

fun write_cleaned :: "csv_file \<Rightarrow> pyval list list \<Rightarrow> csv_file" where
  "write_cleaned file [] = file"
| "write_cleaned file (row # rows) =
     write_cleaned (writer_writerow file (map clean_value row)) rows"

definition export_rows :: "string list \<Rightarrow> pyval list list \<Rightarrow> csv_file" where
  "export_rows columns rows = write_cleaned (writer_writerow [] (map PyStr columns)) rows"

section \<open>Batch export: \<open>run_batch_export\<close> (sqlserver\_view\_export.py)\<close>

text \<open>
  \<open>export_view_to_csv\<close> catches every exception and answers \<open>True\<close> or \<open>False\<close>.  For the
  batch it is the world: the answer to the \<open>n\<close>-th call (counted from 0) for a view name
  and an output path.  The output path of a view is a parameter too.
\<close>

type_synonym exporter = "nat \<Rightarrow> string \<Rightarrow> string \<Rightarrow> bool"

record batch =
  attempted :: "(string \<times> bool) list"
  success_count :: nat
  failed_count :: nat

fun batch_loop :: "exporter \<Rightarrow> (string \<Rightarrow> string) \<Rightarrow> string list \<Rightarrow> batch \<Rightarrow> batch" where
  "batch_loop export path_of [] b = b"
| "batch_loop export path_of (view_name # view_names) b =
     (let output_path = path_of view_name in
      if export (length (attempted b)) view_name output_path
        then batch_loop export path_of view_names
               (b\<lparr>attempted := attempted b @ [(view_name, True)],
                  success_count := success_count b + 1\<rparr>)
      else batch_loop export path_of view_names
             (b\<lparr>attempted := attempted b @ [(view_name, False)],
                failed_count := failed_count b + 1\<rparr>))"

text \<open>
  The command: the configuration and the connection may each end the process before any
  view is tried (\<open>config\<close> and \<open>conn_ok\<close> are their outcomes).  The result is the exit
  code together with the state of the batch at exit.
\<close>

definition run_batch_export ::
  "(error + unit) \<Rightarrow> bool \<Rightarrow> exporter \<Rightarrow> (string \<Rightarrow> string) \<Rightarrow> string list \<Rightarrow> nat \<times> batch" where
  "run_batch_export config conn_ok export path_of view_names =
     (let b0 = \<lparr>attempted = [], success_count = 0, failed_count = 0\<rparr> in
      case config of
        Inl e \<Rightarrow> (1, b0)
      | Inr _ \<Rightarrow>
          if \<not> conn_ok then (1, b0)
          else (let b = batch_loop export path_of view_names b0 in
                if failed_count b > 0 then (1, b) else (0, b)))"

section \<open>Configuration: \<open>parse_env_file\<close> and \<open>load_config\<close> (both scripts)\<close>

text \<open>
  The file is the list of its lines, or \<open>None\<close> when it does not exist.  The environment
  is a dictionary from keys to values.
\<close>

type_synonym env = "string \<rightharpoonup> string"

definition strip_quotes :: "string \<Rightarrow> string" where
  "strip_quotes v =
     (if length v \<ge> 2 \<and> hd v = last v \<and> (hd v = dquote \<or> hd v = squote)
        then butlast (tl v) else v)"

definition parse_line :: "string \<Rightarrow> env \<Rightarrow> env" where
  "parse_line raw env =
     (let line = py_strip raw in
      if line = [] \<or> hd line = CHR ''#'' then env
      else if CHR ''='' \<notin> set line then env
      else (let key = py_strip (takeWhile (\<lambda>c. c \<noteq> CHR ''='') line);
                v = py_strip (tl (dropWhile (\<lambda>c. c \<noteq> CHR ''='') line))
            in env(key \<mapsto> strip_quotes v)))"

definition parse_env_file :: "string list option \<Rightarrow> error + env" where
  "parse_env_file file =
     (case file of
        None \<Rightarrow> Inl EnvFileNotFound
      | Some lines \<Rightarrow> Inr (fold parse_line lines Map.empty))"

text \<open>\<open>[k for k in required if k not in env or not env[k]]\<close>\<close>

definition missing_keys :: "string list \<Rightarrow> env \<Rightarrow> string list" where
  "missing_keys required env = filter (\<lambda>k. env k = None \<or> env k = Some []) required"

definition setdefault :: "string \<Rightarrow> string \<Rightarrow> env \<Rightarrow> env" where
  "setdefault k v env = (case env k of None \<Rightarrow> env(k \<mapsto> v) | Some _ \<Rightarrow> env)"

definition dremio_required :: "string list" where
  "dremio_required = [''DREMIO_BASE_URL'', ''DREMIO_API_KEY'']"

definition dremio_load_config :: "string list option \<Rightarrow> error + env" where
  "dremio_load_config file =
     (case parse_env_file file of
        Inl e \<Rightarrow> Inl e
      | Inr env \<Rightarrow>
          (let missing = missing_keys dremio_required env in
           if missing \<noteq> [] then Inl (MissingVariables missing)
           else Inr (env(''DREMIO_BASE_URL'' \<mapsto>
                  rstrip_chars (\<lambda>c. c = CHR ''/'') (the (env ''DREMIO_BASE_URL''))))))"

definition sqlserver_required :: "string list" where
  "sqlserver_required = [''SQL_SERVER'', ''SQL_DATABASE'', ''SQL_USER'', ''SQL_PASSWORD'']"

definition sqlserver_load_config :: "string list option \<Rightarrow> error + env" where
  "sqlserver_load_config file =
     (case parse_env_file file of
        Inl e \<Rightarrow> Inl e
      | Inr env \<Rightarrow>
          (let missing = missing_keys sqlserver_required env in
           if missing \<noteq> [] then Inl (MissingVariables missing)
           else Inr (setdefault ''OUTPUT_DIR'' ''./exports''
                  (setdefault ''TRUST_SERVER_CERTIFICATE'' ''Yes''
                    (setdefault ''SQL_PORT'' ''1433'' env)))))"

section \<open>Catalog search: the statement of \<open>search_catalog\<close> (dremio\_export.py)\<close>

definition safe_keyword :: "string \<Rightarrow> string" where
  "safe_keyword keyword = py_lower (py_double squote keyword)"

definition search_sql :: "string \<Rightarrow> string" where
  "search_sql keyword =
     ''SELECT TABLE_SCHEMA, TABLE_NAME, TABLE_TYPE '' @
     ''FROM INFORMATION_SCHEMA.'' @ [dquote] @ ''TABLES'' @ [dquote] @ '' '' @
     ''WHERE LOWER(TABLE_NAME) LIKE '' @ [squote] @ ''%'' @ safe_keyword keyword @ ''%'' @
       [squote] @ '' '' @
     ''OR LOWER(TABLE_SCHEMA) LIKE '' @ [squote] @ ''%'' @ safe_keyword keyword @ ''%'' @
       [squote] @ '' '' @
     ''ORDER BY TABLE_SCHEMA, TABLE_NAME''"

text \<open>
  How SQL reads single quotes.  Outside a literal a quote opens one; inside, two quotes in
  a row are one quote character of the literal and a single quote closes it.  The scanner
  returns the contents of the literals of a statement, or \<open>None\<close> when the statement ends
  inside a literal: its quoting is then not balanced.
\<close>

fun scan_outside :: "string \<Rightarrow> string list \<Rightarrow> string list option"
  and scan_inside :: "string \<Rightarrow> string \<Rightarrow> string list \<Rightarrow> string list option" where
  "scan_outside [] lits = Some lits"
| "scan_outside (c # cs) lits =
     (if c = squote then scan_inside cs [] lits else scan_outside cs lits)"
| "scan_inside [] current lits = None"
| "scan_inside (c # cs) current lits =
     (if c \<noteq> squote then scan_inside cs (current @ [c]) lits
      else (case cs of
              [] \<Rightarrow> Some (lits @ [current])
            | d # ds \<Rightarrow>
                if d = squote then scan_inside ds (current @ [squote]) lits
                else scan_outside ds (lits @ [current])))"

definition sql_literals :: "string \<Rightarrow> string list option" where
  "sql_literals s = scan_outside s []"

definition balanced :: "string \<Rightarrow> bool" where
  "balanced s = (sql_literals s \<noteq> None)"

section \<open>Properties of the polling loop\<close>

lemma wait_loop_pending:
  "\<forall>ev\<in>set pre. pending start timeout ev \<Longrightarrow>
   wait_loop start timeout ivl (pre @ rest) tr =
   wait_loop start timeout ivl rest (tr @ concat (map (\<lambda>_. [Get, ReadClock, Sleep ivl]) pre))"
proof (induction pre arbitrary: tr)
  case Nil
  then show ?case by simp
next
  case (Cons ev pre)
  from Cons.prems have "pending start timeout ev" by simp
  then obtain data where r: "response ev = HttpOk data"
    and nt: "state_of data \<notin> terminal_states" and lt: "clock ev - start < timeout"
    by (auto simp: pending_def split: http.splits)
  from Cons.prems have others: "\<forall>ev\<in>set pre. pending start timeout ev" by simp
  show ?case
    using r nt lt Cons.IH [OF others] by (simp add: Let_def)
qed

text \<open>
  C1 (as amended).  Take any script in which every observation before the first COMPLETED
  one is a successful poll of a non-terminal state (an absent or unrecognised state
  included) made before the timeout.  Then \<open>wait_for_job\<close> returns the COMPLETED snapshot.
  Nothing is asked of the clock at the COMPLETED observation: on that turn the loop returns
  right after its GET, before it reads the clock, so a job seen COMPLETED at or after the
  timeout boundary still succeeds.
\<close>

theorem wait_for_job_completed:
  assumes "\<forall>ev\<in>set pre. pending start timeout ev"
    and "response ev = HttpOk data"
    and "jobState data = Some ''COMPLETED''"
  shows "wait_for_job start timeout ivl (pre @ ev # rest) =
           (Some (Inr data),
            ReadClock # concat (map (\<lambda>_. [Get, ReadClock, Sleep ivl]) pre) @ [Get])"
  using assms
  by (simp add: wait_for_job_def wait_loop_pending state_of_def terminal_states_def)

theorem wait_for_job_completed_witness:
  "wait_for_job 0 300 1
     [\<lparr>response = HttpOk \<lparr>jobState = Some ''RUNNING'', errorMessage = None, rowCount = None\<rparr>,
       clock = 1\<rparr>,
      \<lparr>response = HttpOk \<lparr>jobState = None, errorMessage = None, rowCount = None\<rparr>,
       clock = 2\<rparr>,
      \<lparr>response = HttpOk \<lparr>jobState = Some ''COMPLETED'', errorMessage = None, rowCount = Some 7\<rparr>,
       clock = 300\<rparr>]
   = (Some (Inr \<lparr>jobState = Some ''COMPLETED'', errorMessage = None, rowCount = Some 7\<rparr>),
      [ReadClock, Get, ReadClock, Sleep 1, Get, ReadClock, Sleep 1, Get])"
  using wait_for_job_completed
    [where pre = "[\<lparr>response = HttpOk \<lparr>jobState = Some ''RUNNING'', errorMessage = None,
                      rowCount = None\<rparr>, clock = 1\<rparr>,
                   \<lparr>response = HttpOk \<lparr>jobState = None, errorMessage = None,
                      rowCount = None\<rparr>, clock = 2\<rparr>]"
       and start = 0 and timeout = 300 and ivl = 1 and rest = "[]"
       and ev = "\<lparr>response = HttpOk \<lparr>jobState = Some ''COMPLETED'', errorMessage = None,
                     rowCount = Some 7\<rparr>, clock = 300\<rparr>"
       and data = "\<lparr>jobState = Some ''COMPLETED'', errorMessage = None, rowCount = Some 7\<rparr>"]
  by (simp add: pending_def state_of_def terminal_states_def)

text \<open>
  C1 as stated fails: a sequence that ends in COMPLETED after a non-terminal state does not
  succeed when the timeout has run out at the non-terminal observation.
\<close>

theorem wait_for_job_completed_counterexample:
  "wait_for_job 0 300 1
     [\<lparr>response = HttpOk \<lparr>jobState = Some ''RUNNING'', errorMessage = None, rowCount = None\<rparr>,
       clock = 300\<rparr>,
      \<lparr>response = HttpOk \<lparr>jobState = Some ''COMPLETED'', errorMessage = None, rowCount = Some 7\<rparr>,
       clock = 301\<rparr>]
   = (Some (Inl (QueryTimedOut 300 ''RUNNING'')), [ReadClock, Get, ReadClock])"
  by (simp add: wait_for_job_def state_of_def terminal_states_def)

text \<open>
  C5 (as amended).  Take any script in which a successful poll of a non-terminal state is
  made at or after the timeout (elapsed time \<open>\<ge>\<close> timeout), every observation before it
  being a successful poll of a non-terminal state made before the timeout.  Then
  \<open>wait_for_job\<close> ends with the timeout error, which reports the state observed last.  On
  every non-terminal observation the loop reads the clock and compares first; it sleeps
  \<open>poll_interval\<close> only when the timeout has not run out, and polls again after the
  sleep.  No sleep comes between the last observation and the error.
\<close>

theorem wait_for_job_timeout:
  assumes "\<forall>ev\<in>set pre. pending start timeout ev"
    and "response ev = HttpOk data"
    and "state_of data \<notin> terminal_states"
    and "clock ev - start \<ge> timeout"
  shows "wait_for_job start timeout ivl (pre @ ev # rest) =
           (Some (Inl (QueryTimedOut timeout (state_of data))),
            ReadClock # concat (map (\<lambda>_. [Get, ReadClock, Sleep ivl]) pre) @ [Get, ReadClock])"
  using assms
  by (simp add: wait_for_job_def wait_loop_pending)

theorem wait_for_job_timeout_witness:
  "wait_for_job 0 2 1
     [\<lparr>response = HttpOk \<lparr>jobState = Some ''SUBMITTED'', errorMessage = None, rowCount = None\<rparr>,
       clock = 0\<rparr>,
      \<lparr>response = HttpOk \<lparr>jobState = Some ''RUNNING'', errorMessage = None, rowCount = None\<rparr>,
       clock = 1\<rparr>,
      \<lparr>response = HttpOk \<lparr>jobState = Some ''STARTING'', errorMessage = None, rowCount = None\<rparr>,
       clock = 2\<rparr>]
   = (Some (Inl (QueryTimedOut 2 ''STARTING'')),
      [ReadClock, Get, ReadClock, Sleep 1, Get, ReadClock, Sleep 1, Get, ReadClock])"
  using wait_for_job_timeout
    [where pre = "[\<lparr>response = HttpOk \<lparr>jobState = Some ''SUBMITTED'', errorMessage = None,
                      rowCount = None\<rparr>, clock = 0\<rparr>,
                   \<lparr>response = HttpOk \<lparr>jobState = Some ''RUNNING'', errorMessage = None,
                      rowCount = None\<rparr>, clock = 1\<rparr>]"
       and start = 0 and timeout = 2 and ivl = 1 and rest = "[]"
       and ev = "\<lparr>response = HttpOk \<lparr>jobState = Some ''STARTING'', errorMessage = None,
                     rowCount = None\<rparr>, clock = 2\<rparr>"
       and data = "\<lparr>jobState = Some ''STARTING'', errorMessage = None, rowCount = None\<rparr>"]
  by (simp add: pending_def state_of_def terminal_states_def)

text \<open>
  C5 as stated fails: the loop does not sleep on each non-terminal observation before it
  checks the time.  Here one non-terminal observation is followed by the timeout error
  with no sleep at all.
\<close>

theorem wait_for_job_timeout_counterexample:
  "wait_for_job 0 5 1
     [\<lparr>response = HttpOk \<lparr>jobState = Some ''RUNNING'', errorMessage = None, rowCount = None\<rparr>,
       clock = 7\<rparr>]
   = (Some (Inl (QueryTimedOut 5 ''RUNNING'')), [ReadClock, Get, ReadClock])
   \<and> Sleep 1 \<notin> set (snd (wait_for_job 0 5 1
     [\<lparr>response = HttpOk \<lparr>jobState = Some ''RUNNING'', errorMessage = None, rowCount = None\<rparr>,
       clock = 7\<rparr>]))"
  by (simp add: wait_for_job_def state_of_def terminal_states_def)

section \<open>Properties of the pagination loop\<close>

lemma fetch_loop_runs:
  assumes P: "1 \<le> P"
  shows "off = int (length reqs0) * P \<Longrightarrow>
    \<exists>out m. fetch_loop srv R P cols acc off reqs0 =
        Some (out, reqs0 @ map (\<lambda>k. (int k * P, P)) [length reqs0..<length reqs0 + m])
      \<and> (\<forall>k. length reqs0 \<le> k \<and> k < length reqs0 + m \<longrightarrow> int k * P \<le> max (R - 1) 0)
      \<and> (\<forall>k. length reqs0 \<le> k \<and> Suc k < length reqs0 + m \<longrightarrow>
            (\<exists>data. srv k (int k * P) P = HttpOk data \<and> P \<le> int (length (rows_of data))))"
proof (induction "nat (max (R - 1) 0 + 1 - off)" arbitrary: cols acc off reqs0 rule: less_induct)
  case less
  let ?n = "length reqs0"
  let ?req = "\<lambda>k. (int k * P, P)"
  let ?full = "\<lambda>k. \<exists>data. srv k (int k * P) P = HttpOk data \<and> P \<le> int (length (rows_of data))"
  have off: "off = int ?n * P" by (rule less.prems)
  have one: "reqs0 @ [(off, P)] = reqs0 @ map ?req [?n..<?n + 1]" by (simp add: off)
  show ?case
  proof (cases "off \<le> max (R - 1) 0")
    case False
    then have "fetch_loop srv R P cols acc off reqs0 =
        Some (Inr (cols, acc), reqs0 @ map ?req [?n..<?n + 0])"
      by (subst fetch_loop.simps) simp
    then show ?thesis by (intro exI [of _ "Inr (cols, acc)"] exI [of _ 0]) auto
  next
    case True
    have bound1: "\<forall>k. ?n \<le> k \<and> k < ?n + 1 \<longrightarrow> int k * P \<le> max (R - 1) 0"
    proof (intro allI impI)
      fix k assume "?n \<le> k \<and> k < ?n + 1"
      then have "k = ?n" by simp
      then show "int k * P \<le> max (R - 1) 0" using True off by simp
    qed
    have full1: "\<forall>k. ?n \<le> k \<and> Suc k < ?n + 1 \<longrightarrow> ?full k" by auto
    show ?thesis
    proof (cases "srv ?n off P")
      case (TransportError e)
      have "fetch_loop srv R P cols acc off reqs0 =
          Some (Inl (FetchFailed off e), reqs0 @ map ?req [?n..<?n + 1])"
        by (subst fetch_loop.simps) (simp only: True if_True TransportError http.case one)
      with bound1 full1 show ?thesis by blast
    next
      case (HttpStatus code)
      have "fetch_loop srv R P cols acc off reqs0 =
          Some (Inl (FetchHttpError code), reqs0 @ map ?req [?n..<?n + 1])"
        by (subst fetch_loop.simps) (simp only: True if_True HttpStatus http.case one)
      with bound1 full1 show ?thesis by blast
    next
      case (HttpOk data)
      show ?thesis
      proof (cases "int (length (rows_of data)) < P")
        case short: True
        have "fetch_loop srv R P cols acc off reqs0 =
            Some (Inr (capture cols data, acc @ rows_of data), reqs0 @ map ?req [?n..<?n + 1])"
          by (subst fetch_loop.simps) (simp only: True if_True HttpOk http.case short one)
        with bound1 full1 show ?thesis by blast
      next
        case full: False
        have step: "fetch_loop srv R P cols acc off reqs0 =
            fetch_loop srv R P (capture cols data) (acc @ rows_of data) (off + P) (reqs0 @ [(off, P)])"
          by (subst fetch_loop.simps) (simp only: True if_True HttpOk http.case full if_False)
        have smaller: "nat (max (R - 1) 0 + 1 - (off + P)) < nat (max (R - 1) 0 + 1 - off)"
          using P True by linarith
        have off': "off + P = int (length (reqs0 @ [(off, P)])) * P"
          by (simp add: off algebra_simps)
        from less.hyps [OF smaller off', of "capture cols data" "acc @ rows_of data"]
        obtain out m where
          res: "fetch_loop srv R P (capture cols data) (acc @ rows_of data) (off + P)
                  (reqs0 @ [(off, P)]) =
                Some (out, (reqs0 @ [(off, P)]) @ map ?req [Suc ?n..<Suc ?n + m])"
          and bound: "\<forall>k. Suc ?n \<le> k \<and> k < Suc ?n + m \<longrightarrow> int k * P \<le> max (R - 1) 0"
          and fulls: "\<forall>k. Suc ?n \<le> k \<and> Suc k < Suc ?n + m \<longrightarrow> ?full k"
          by auto
        have reqs: "(reqs0 @ [(off, P)]) @ map ?req [Suc ?n..<Suc ?n + m] =
            reqs0 @ map ?req [?n..<?n + Suc m]"
          by (simp add: off upt_conv_Cons)
        have here: "?full ?n" using HttpOk full off by auto
        have A: "fetch_loop srv R P cols acc off reqs0 =
            Some (out, reqs0 @ map ?req [?n..<?n + Suc m])"
          by (simp only: step res reqs)
        have B: "\<forall>k. ?n \<le> k \<and> k < ?n + Suc m \<longrightarrow> int k * P \<le> max (R - 1) 0"
        proof (intro allI impI)
          fix k assume k: "?n \<le> k \<and> k < ?n + Suc m"
          show "int k * P \<le> max (R - 1) 0"
          proof (cases "k = ?n")
            case True
            then show ?thesis using \<open>off \<le> max (R - 1) 0\<close> off by simp
          next
            case False
            with k have "Suc ?n \<le> k \<and> k < Suc ?n + m" by simp
            with bound show ?thesis by blast
          qed
        qed
        have C: "\<forall>k. ?n \<le> k \<and> Suc k < ?n + Suc m \<longrightarrow> ?full k"
        proof (intro allI impI)
          fix k assume k: "?n \<le> k \<and> Suc k < ?n + Suc m"
          show "?full k"
          proof (cases "k = ?n")
            case True
            then show ?thesis using here by simp
          next
            case False
            with k have "Suc ?n \<le> k \<and> Suc k < Suc ?n + m" by simp
            with fulls show ?thesis by blast
          qed
        qed
        from A B C show ?thesis by blast
      qed
    qed
  qed
qed

text \<open>
  C4.  For every \<open>row_count\<close>, every \<open>page_size \<ge> 1\<close> and every server, the pagination
  loop returns (and so does \<open>fetch_all_results\<close>).  Its requests are made at the offsets
  \<open>0, page_size, 2 * page_size, ...\<close>, each of them at most \<open>max (row_count - 1) 0\<close>, and
  a page that comes back with fewer than \<open>page_size\<close> rows is the last one requested,
  wherever its offset lies.
\<close>

theorem fetch_loop_terminates:
  assumes "1 \<le> P"
  shows "\<exists>out reqs. fetch_loop srv R P [] [] 0 [] = Some (out, reqs)
      \<and> reqs = map (\<lambda>k. (int k * P, P)) [0..<length reqs]
      \<and> (\<forall>k. k < length reqs \<longrightarrow> int k * P \<le> max (R - 1) 0)
      \<and> (\<forall>k data. k < length reqs \<and> srv k (int k * P) P = HttpOk data
             \<and> int (length (rows_of data)) < P \<longrightarrow> Suc k = length reqs)
      \<and> fetch_all_results srv R P \<noteq> None"
proof -
  from fetch_loop_runs [OF assms, of 0 "[]" srv R "[]" "[]"]
  obtain out m where
    res: "fetch_loop srv R P [] [] 0 [] = Some (out, map (\<lambda>k. (int k * P, P)) [0..<m])"
    and bound: "\<forall>k. k < m \<longrightarrow> int k * P \<le> max (R - 1) 0"
    and fulls: "\<forall>k. Suc k < m \<longrightarrow>
      (\<exists>data. srv k (int k * P) P = HttpOk data \<and> P \<le> int (length (rows_of data)))"
    by auto
  let ?reqs = "map (\<lambda>k. (int k * P, P)) [0..<m]"
  have len: "length ?reqs = m" by simp
  have last: "\<forall>k data. k < m \<and> srv k (int k * P) P = HttpOk data
      \<and> int (length (rows_of data)) < P \<longrightarrow> Suc k = m"
  proof (intro allI impI)
    fix k data
    assume a: "k < m \<and> srv k (int k * P) P = HttpOk data \<and> int (length (rows_of data)) < P"
    have "\<not> Suc k < m"
    proof
      assume "Suc k < m"
      with fulls obtain d where "srv k (int k * P) P = HttpOk d" "P \<le> int (length (rows_of d))"
        by blast
      with a show False by simp
    qed
    with a show "Suc k = m" by simp
  qed
  have all: "fetch_all_results srv R P \<noteq> None"
    by (simp add: fetch_all_results_def res split: sum.splits prod.splits)
  have "fetch_loop srv R P [] [] 0 [] = Some (out, ?reqs)
      \<and> ?reqs = map (\<lambda>k. (int k * P, P)) [0..<length ?reqs]
      \<and> (\<forall>k. k < length ?reqs \<longrightarrow> int k * P \<le> max (R - 1) 0)
      \<and> (\<forall>k data. k < length ?reqs \<and> srv k (int k * P) P = HttpOk data
             \<and> int (length (rows_of data)) < P \<longrightarrow> Suc k = length ?reqs)
      \<and> fetch_all_results srv R P \<noteq> None"
    unfolding len using res bound last all by blast
  then show ?thesis by blast
qed

theorem fetch_loop_terminates_witness:
  "\<exists>out reqs.
      fetch_loop (\<lambda>n offset limit. HttpOk \<lparr>schema = None,
          page_rows = Some (if n = 0 then [1, 2] else [3 :: nat])\<rparr>) 10 2 [] [] 0 []
        = Some (out, reqs)
      \<and> reqs = map (\<lambda>k. (int k * 2, 2)) [0..<length reqs]
      \<and> (\<forall>k. k < length reqs \<longrightarrow> int k * 2 \<le> max (10 - 1) 0)
      \<and> (\<forall>k data. k < length reqs
             \<and> (HttpOk \<lparr>schema = None, page_rows = Some (if k = 0 then [1, 2] else [3 :: nat])\<rparr>
                  :: nat page http) = HttpOk data
             \<and> int (length (rows_of data)) < 2 \<longrightarrow> Suc k = length reqs)
      \<and> fetch_all_results (\<lambda>n offset limit. HttpOk \<lparr>schema = None,
          page_rows = Some (if n = 0 then [1, 2] else [3 :: nat])\<rparr>) 10 2 \<noteq> None"
  using fetch_loop_terminates [of 2 "\<lambda>n offset limit. HttpOk \<lparr>schema = None,
          page_rows = Some (if n = 0 then [1, 2] else [3 :: nat])\<rparr>" 10]
  by simp

section \<open>Properties of \<open>fetch_all_results\<close>\<close>

lemma page_count_less: "0 < p \<Longrightarrow> k * p < n \<Longrightarrow> k < page_count n p"
proof -
  assume p: "0 < p" and lt: "k * p < n"
  have "Suc k * p \<le> n + p - 1" using p lt by simp
  then have "Suc k \<le> (n + p - 1) div p" using p by (simp only: less_eq_div_iff_mult_less_eq)
  then show ?thesis by (simp add: page_count_def)
qed

lemma page_count_last: "0 < p \<Longrightarrow> k * p < n \<Longrightarrow> n < k * p + p \<Longrightarrow> page_count n p = Suc k"
proof -
  assume p: "0 < p" and lt: "k * p < n" and short: "n < k * p + p"
  have "n + p - 1 < Suc (Suc k) * p" using p short by simp
  then have "(n + p - 1) div p < Suc (Suc k)" using p by (simp only: div_less_iff_less_mult)
  moreover have "k < page_count n p" using p lt by (rule page_count_less)
  ultimately show ?thesis by (simp add: page_count_def)
qed

lemma page_count_exact: "0 < p \<Longrightarrow> page_count (k * p) p = k"
proof -
  assume p: "0 < p"
  have "k * p \<le> k * p + p - 1" using p by simp
  then have lo: "k \<le> (k * p + p - 1) div p" using p by (simp only: less_eq_div_iff_mult_less_eq)
  have "k * p + p - 1 < Suc k * p" using p by simp
  then have hi: "(k * p + p - 1) div p < Suc k" using p by (simp only: div_less_iff_less_mult)
  from lo hi show ?thesis by (simp add: page_count_def)
qed

lemma first_schema_single:
  "first_schema [s] = (if s \<noteq> None then the s else [])"
  by (cases s) auto

lemma well_behaved_loop:
  assumes wb: "well_behaved srv sch table" and p: "0 < p" and n: "0 < length table"
  shows "k * p \<le> length table \<Longrightarrow>
    fetch_loop srv (int (length table)) (int p) cols (take (k * p) table) (int (k * p))
        (map (\<lambda>j. (int j * int p, int p)) [0..<k]) =
      Some (Inr (if cols = [] then first_schema (map sch [k..<page_count (length table) p]) else cols,
                 table),
            map (\<lambda>j. (int j * int p, int p)) [0..<page_count (length table) p])"
proof (induction "length table - k * p" arbitrary: k cols rule: less_induct)
  case less
  let ?n = "length table"
  let ?N = "page_count ?n p"
  let ?req = "\<lambda>j. (int j * int p, int p)"
  have ans: "srv k (int (k * p)) (int p) =
      HttpOk \<lparr>schema = sch k, page_rows = Some (take p (drop (k * p) table))\<rparr>"
  proof -
    from wb have "srv k (int (k * p)) (int p) =
        HttpOk \<lparr>schema = sch k,
               page_rows = Some (take (nat (int p)) (drop (nat (int (k * p))) table))\<rparr>"
      unfolding well_behaved_def by blast
    then show ?thesis by (simp only: nat_int)
  qed
  show ?case
  proof (cases "k * p = ?n")
    case True
    then have N: "?N = k" using p page_count_exact [of p k] by simp
    have stop: "\<not> int (k * p) \<le> max (int ?n - 1) 0" using True n by simp
    show ?thesis
      by (subst fetch_loop.simps) (simp only: stop if_False N, simp add: True)
  next
    case False
    with less.prems have lt: "k * p < ?n" by simp
    then have "int (k * p) < int ?n" by (simp only: of_nat_less_iff)
    then have go: "int (k * p) \<le> max (int ?n - 1) 0" by linarith
    have kN: "k < ?N" using p lt by (rule page_count_less)
    have upt: "[k..<?N] = k # [Suc k..<?N]" using kN by (rule upt_conv_Cons)
    show ?thesis
    proof (cases "?n - k * p < p")
      case True
      then have N: "?N = Suc k" using p lt page_count_last [of p k ?n] by simp
      have rows: "take p (drop (k * p) table) = drop (k * p) table" using True by simp
      have short: "int (length (drop (k * p) table)) < int p" using True by simp
      show ?thesis
        apply (subst fetch_loop.simps)
        apply (simp only: go if_True ans http.case rows_of_def page.simps option.case rows short
            N length_map length_upt diff_zero)
        apply (simp add: capture_def first_schema_single)
        done
    next
      case False
      have Sk: "Suc k * p = k * p + p" by simp
      from False lt have full: "Suc k * p \<le> ?n" unfolding Sk by linarith
      have len: "length (take p (drop (k * p) table)) = p" using False by simp
      have notshort: "\<not> int (length (take p (drop (k * p) table))) < int p"
        by (simp only: len)
      have acc: "take (k * p) table @ take p (drop (k * p) table) = take (Suc k * p) table"
        unfolding Sk by (simp only: take_add)
      have off: "int (k * p) + int p = int (Suc k * p)" by simp
      have reqs: "map ?req [0..<k] @ [(int (k * p), int p)] = map ?req [0..<Suc k]" by simp
      have smaller: "?n - Suc k * p < ?n - k * p" using p lt unfolding Sk by linarith
      note IH = less.hyps [OF smaller full]
      show ?thesis
        apply (subst fetch_loop.simps)
        apply (simp only: go if_True ans http.case rows_of_def page.simps option.case notshort
            if_False length_map length_upt diff_zero acc off reqs IH upt)
        apply (cases "sch k")
         apply (simp_all add: capture_def)
        done
    qed
  qed
qed

lemma concat_slices:
  "concat (map (\<lambda>k. take p (drop (k * p) t)) [0..<m]) = take (m * p) t"
proof (induction m)
  case 0
  show ?case by simp
next
  case (Suc m)
  have Sm: "Suc m * p = m * p + p" by simp
  have "concat (map (\<lambda>k. take p (drop (k * p) t)) [0..<Suc m]) =
      concat (map (\<lambda>k. take p (drop (k * p) t)) [0..<m]) @ take p (drop (m * p) t)"
    by simp
  also have "\<dots> = take (m * p) t @ take p (drop (m * p) t)" by (simp only: Suc)
  also have "\<dots> = take (Suc m * p) t" unfolding Sm by (simp only: take_add)
  finally show ?case .
qed

lemma page_count_covers: "0 < p \<Longrightarrow> n \<le> page_count n p * p"
proof -
  assume p: "0 < p"
  have "\<not> page_count n p * p < n"
  proof
    assume "page_count n p * p < n"
    with p have "page_count n p < page_count n p" by (rule page_count_less)
    then show False by simp
  qed
  then show ?thesis by simp
qed

text \<open>
  C3.  Let the server be well-behaved: it holds a table of \<open>R \<ge> 1\<close> rows and answers
  every request with the slice asked for, so that every page has \<open>P\<close> rows except
  possibly the last.  Then for every page size \<open>P \<ge> 1\<close> the call returns exactly the
  table, that is \<open>R\<close> rows, which are the pages in ascending offset order, each in the
  order the server gave; the requests are those for the offsets \<open>0, P, 2 * P, ...\<close> of the
  \<open>page_count\<close> pages; and the columns are the schema of the first fetched page that
  carries one (a schema with no column at all counts as none, as for the script).
\<close>

theorem fetch_all_results_well_behaved:
  assumes "well_behaved srv sch table"
    and "1 \<le> R" and "1 \<le> P" and "int (length table) = R"
  shows "fetch_all_results srv R P =
           Some (Inr (first_schema (map sch [0..<page_count (nat R) (nat P)]), table),
                 map (\<lambda>k. (int k * P, P)) [0..<page_count (nat R) (nat P)])
         \<and> table = concat (map (\<lambda>k. take (nat P) (drop (k * nat P) table))
                     [0..<page_count (nat R) (nat P)])
         \<and> int (length table) = R"
proof -
  define p where "p = nat P"
  have P: "P = int p" and p: "0 < p" using assms(3) by (simp_all add: p_def)
  have R: "R = int (length table)" and n: "0 < length table" using assms(2,4) by auto
  have nR: "nat R = length table" using R by simp
  have loop: "fetch_loop srv R P [] [] 0 [] =
      Some (Inr (first_schema (map sch [0..<page_count (length table) p]), table),
            map (\<lambda>j. (int j * int p, int p)) [0..<page_count (length table) p])"
    using well_behaved_loop [OF assms(1) p n, of 0 "[]"] by (simp add: R P)
  have "R \<noteq> 0" using assms(2) by simp
  then have first: "fetch_all_results srv R P =
      Some (Inr (first_schema (map sch [0..<page_count (length table) p]), table),
            map (\<lambda>j. (int j * int p, int p)) [0..<page_count (length table) p])"
    by (simp add: fetch_all_results_def loop)
  have "length table \<le> page_count (length table) p * p" using p by (rule page_count_covers)
  then have second: "table = concat (map (\<lambda>k. take p (drop (k * p) table))
      [0..<page_count (length table) p])"
    by (simp add: concat_slices)
  show ?thesis
    using first second assms(4) by (simp only: nR P nat_int)
qed

theorem fetch_all_results_well_behaved_witness: "fetch_all_results
    (\<lambda>n offset limit. HttpOk \<lparr>schema = (if n = 0 then Some [''id''] else None),
        page_rows = Some (take (nat limit) (drop (nat offset) [10, 20, 30 :: nat]))\<rparr>) 3 2
   = Some (Inr ([''id''], [10, 20, 30]), [(0, 2), (2, 2)])"
proof -
  let ?srv = "\<lambda>(n::nat) offset limit. HttpOk \<lparr>schema = (if n = 0 then Some [''id''] else None),
        page_rows = Some (take (nat limit) (drop (nat offset) [10, 20, 30 :: nat]))\<rparr>"
  let ?sch = "\<lambda>n::nat. if n = 0 then Some [''id''] else None"
  have wb: "well_behaved ?srv ?sch [10, 20, 30]" by (simp add: well_behaved_def)
  have pages: "[0..<page_count (nat 3) (nat 2)] = [0, 1]" by code_simp
  have "fetch_all_results ?srv 3 2 =
      Some (Inr (first_schema (map ?sch [0, 1]), [10, 20, 30]), map (\<lambda>k. (int k * 2, 2)) [0, 1])"
    using fetch_all_results_well_behaved [OF wb, of 3 2] by (simp only: pages) simp
  then show ?thesis by simp
qed

text \<open>
  C2 (as amended).  With \<open>row_count = 0\<close> and \<open>page_size \<ge> 1\<close> the pagination loop runs
  exactly once: one fetch at offset 0 with limit \<open>page_size\<close>, whose failure is fatal.
  When that page gives a non-empty column list, this list is returned and nothing else is
  requested.  Otherwise one best-effort fetch at offset 0 with limit 1 follows; whatever
  goes wrong with it is swallowed and leaves the columns empty, and the call returns.  So
  the columns returned are non-empty exactly when the first page carries a non-empty
  schema or else the best-effort fetch succeeds and carries one.
\<close>

theorem fetch_all_results_zero_rows:
  assumes "1 \<le> P"
  shows "fetch_all_results srv 0 P =
    (case srv 0 0 P of
       TransportError e \<Rightarrow> Some (Inl (FetchFailed 0 e), [(0, P)])
     | HttpStatus code \<Rightarrow> Some (Inl (FetchHttpError code), [(0, P)])
     | HttpOk data \<Rightarrow>
         if capture [] data \<noteq> [] then Some (Inr (capture [] data, rows_of data), [(0, P)])
         else Some (Inr (case srv 1 0 1 of
                           HttpOk d \<Rightarrow> (case schema d of Some names \<Rightarrow> names | None \<Rightarrow> [])
                         | _ \<Rightarrow> [],
                         rows_of data),
                    [(0, P), (0, 1)]))"
proof (cases "srv 0 0 P")
  case (TransportError e)
  then show ?thesis
    by (simp add: fetch_all_results_def fetch_loop.simps [of srv 0 P "[]" "[]" 0 "[]"])
next
  case (HttpStatus code)
  then show ?thesis
    by (simp add: fetch_all_results_def fetch_loop.simps [of srv 0 P "[]" "[]" 0 "[]"])
next
  case (HttpOk data)
  have after: "fetch_loop srv 0 P c a P [(0, P)] = Some (Inr (c, a), [(0, P)])" for c a
    using assms by (subst fetch_loop.simps) simp
  have loop: "fetch_loop srv 0 P [] [] 0 [] = Some (Inr (capture [] data, rows_of data), [(0, P)])"
    using HttpOk by (subst fetch_loop.simps) (simp add: after)
  show ?thesis
    using HttpOk
    by (simp add: fetch_all_results_def loop recover_schema_def
        split: http.splits option.splits)
qed

theorem fetch_all_results_zero_rows_witness:
  "fetch_all_results (\<lambda>n offset limit.
       if n = 0 then HttpOk \<lparr>schema = None, page_rows = Some ([] :: nat list)\<rparr>
       else if limit = 1 then HttpOk \<lparr>schema = Some [''id'', ''name''], page_rows = None\<rparr>
       else HttpStatus 500) 0 500
   = Some (Inr ([''id'', ''name''], []), [(0, 500), (0, 1)])"
  using fetch_all_results_zero_rows [of 500 "\<lambda>n offset limit.
       if n = 0 then HttpOk \<lparr>schema = None, page_rows = Some ([] :: nat list)\<rparr>
       else if limit = 1 then HttpOk \<lparr>schema = Some [''id'', ''name''], page_rows = None\<rparr>
       else HttpStatus 500"]
  by (simp add: capture_def rows_of_def)

text \<open>
  C2 as stated fails: with \<open>row_count = 0\<close> the loop does run, its fetch asks for a whole
  page, and a failure of that fetch ends the call with an error.
\<close>

theorem fetch_all_results_zero_rows_counterexample:
  "fetch_all_results (\<lambda>n offset limit. HttpStatus 500 :: nat page http) 0 500
   = Some (Inl (FetchHttpError 500), [(0, 500)])"
  by (simp add: fetch_all_results_def fetch_loop.simps)

section \<open>Properties of \<open>parse_path\<close>\<close>

lemma fold_inside:
  "dquote \<notin> set s \<Longrightarrow> fold quote_step s (segs, cur, True) = (segs, cur @ s, True)"
  by (induction s arbitrary: cur) auto

lemma fold_quoted:
  "dquote \<notin> set s \<Longrightarrow> fold quote_step (quoted s) (segs, cur, False) = (segs, cur @ s, False)"
  by (simp add: quoted_def fold_inside)

lemma dot_not_dquote: "CHR ''.'' \<noteq> dquote"
  by (simp add: dquote_def)

lemma quoted_path_Cons:
  "ss \<noteq> [] \<Longrightarrow> quoted_path (s # ss) = quoted s @ CHR ''.'' # quoted_path ss"
  by (cases ss) (simp_all add: quoted_path_def)

lemma fold_quoted_path:
  "ss \<noteq> [] \<Longrightarrow> \<forall>s\<in>set ss. dquote \<notin> set s \<Longrightarrow>
   fold quote_step (quoted_path ss) (segs, [], False) =
     (segs @ filter (\<lambda>s. s \<noteq> []) (butlast ss), last ss, False)"
proof (induction ss arbitrary: segs)
  case Nil
  then show ?case by simp
next
  case (Cons s ss)
  from Cons.prems have s: "dquote \<notin> set s" by simp
  show ?case
  proof (cases "ss = []")
    case True
    then show ?thesis using s by (simp add: quoted_path_def fold_quoted)
  next
    case False
    have "fold quote_step (quoted_path (s # ss)) (segs, [], False) =
        fold quote_step (quoted_path ss) (segs @ filter (\<lambda>s. s \<noteq> []) [s], [], False)"
      using s by (simp add: quoted_path_Cons [OF False] fold_quoted dot_not_dquote)
    also have "\<dots> = ((segs @ filter (\<lambda>s. s \<noteq> []) [s]) @ filter (\<lambda>s. s \<noteq> []) (butlast ss),
        last ss, False)"
      using False Cons.prems by (intro Cons.IH) auto
    finally show ?thesis using False by simp
  qed
qed

lemma set_quoted_path:
  "set (quoted_path ss) \<subseteq> {dquote, CHR ''.''} \<union> \<Union> (set ` set ss)"
proof (induction ss)
  case Nil
  show ?case by (simp add: quoted_path_def)
next
  case (Cons s ss)
  show ?case
  proof (cases "ss = []")
    case True
    then show ?thesis by (auto simp: quoted_path_def quoted_def)
  next
    case False
    then show ?thesis using Cons by (auto simp: quoted_path_Cons quoted_def)
  qed
qed

text \<open>
  C6 (as amended).  The three notations of the examples give segment lists: \<open>a.b\<close> and
  \<open>a/b\<close> parse to \<open>[a, b]\<close>, and \<open>"A B"."C.D"\<close> parses to \<open>[A B, C.D]\<close>.  For every
  quoted path with no slash in it, parsing gives back the quoted segments, each with the
  dots and spaces inside it as they are, as one segment each (a segment that is empty
  between its quotes is dropped).
\<close>

theorem parse_path_notations:
  assumes "segs \<noteq> []" and "\<forall>seg\<in>set segs. plain_segment seg"
  shows "parse_path ''a.b'' = [''a'', ''b'']
       \<and> parse_path ''a/b'' = [''a'', ''b'']
       \<and> parse_path (dquote # ''A B'' @ dquote # CHR ''.'' # dquote # ''C.D'' @ [dquote])
           = [''A B'', ''C.D'']
       \<and> parse_path (quoted_path segs) = filter (\<lambda>seg. seg \<noteq> []) segs"
proof -
  have dotted: "parse_path ''a.b'' = [''a'', ''b'']"
    by (simp add: parse_path_def py_split_def dquote_def)
  have slashed: "parse_path ''a/b'' = [''a'', ''b'']"
    by (simp add: parse_path_def py_split_def py_strip_def py_strip_char_def strip_chars_def
        lstrip_chars_def rstrip_chars_def py_isspace_def dquote_def squote_def)
  have example: "parse_path (dquote # ''A B'' @ dquote # CHR ''.'' # dquote # ''C.D'' @ [dquote])
      = [''A B'', ''C.D'']"
    by (simp add: parse_path_def dquote_def)
  have noslash: "CHR ''/'' \<notin> set (quoted_path segs)"
    using set_quoted_path [of segs] assms(2) by (auto simp: plain_segment_def dquote_def)
  obtain s rest where segs: "segs = s # rest" using assms(1) by (cases segs) auto
  have has: "dquote \<in> set (quoted_path segs)"
    by (cases rest) (simp_all add: segs quoted_path_def quoted_def)
  have nq: "\<forall>s\<in>set segs. dquote \<notin> set s" using assms(2) by (simp add: plain_segment_def)
  have split: "filter (\<lambda>seg. seg \<noteq> []) segs =
      filter (\<lambda>seg. seg \<noteq> []) (butlast segs) @ (if last segs \<noteq> [] then [last segs] else [])"
    using assms(1)
    by (subst append_butlast_last_id [symmetric, of segs])
      (simp_all del: append_butlast_last_id)
  have "parse_path (quoted_path segs) = filter (\<lambda>seg. seg \<noteq> []) segs"
    using noslash has by (simp add: parse_path_def fold_quoted_path [OF assms(1) nq] split)
  with dotted slashed example show ?thesis by (simp only: simp_thms)
qed

theorem parse_path_notations_witness:
  "parse_path (quoted_path [''my space'', ''v1.2 final'']) = [''my space'', ''v1.2 final'']"
  using parse_path_notations [of "[''my space'', ''v1.2 final'']"]
  by (simp add: plain_segment_def dquote_def)

text \<open>
  C6 as stated fails for a quoted path with a slash inside a quoted segment: the slash
  branch is taken, the space before the slash is stripped and the quoted segments are not
  told apart.
\<close>

theorem parse_path_notations_counterexample:
  "parse_path (quoted_path [''a /b'', ''c.d''])
     = [''a'', ''b'' @ dquote # CHR ''.'' # dquote # ''c.d'']
   \<and> parse_path (quoted_path [''a /b'', ''c.d'']) \<noteq> [''a /b'', ''c.d'']"
  by (simp add: parse_path_def quoted_path_def quoted_def py_split_def py_strip_def
      py_strip_char_def strip_chars_def lstrip_chars_def rstrip_chars_def py_isspace_def
      dquote_def squote_def)

section \<open>Properties of the CSV sinks\<close>

lemma write_rows_ignore:
  "extras w = Ignore \<Longrightarrow> restval w = PyStr [] \<Longrightarrow>
   write_rows w f0 rs = Inr (f0 @ map (project (fieldnames w)) rs)"
proof (induction rs arbitrary: f0)
  case Nil
  show ?case by simp
next
  case (Cons r rs)
  have row: "dictwriter_writerow w f0 r = Inr (f0 @ [project (fieldnames w) r])"
    using Cons.prems
    by (auto simp: dictwriter_writerow_def dict_to_list_def writer_writerow_def project_def
        csv_field_def split: option.splits)
  show ?case using Cons.IH [OF Cons.prems] by (simp add: row)
qed

lemma map_of_header:
  "map_of (map (\<lambda>name. (name, PyStr name)) cs) x = (if x \<in> set cs then Some (PyStr x) else None)"
  by (induction cs) auto

lemma write_csv_lines: "write_csv columns rs = Inr (columns # map (project columns) rs)"
proof -
  let ?w = "\<lparr>fieldnames = columns, restval = PyStr [], extras = Ignore\<rparr>"
  have "dict_to_list ?w (map (\<lambda>name. (name, PyStr name)) columns) = Inr (map PyStr columns)"
    by (simp add: dict_to_list_def map_of_header)
  then have header: "dictwriter_writeheader ?w [] = Inr [columns]"
    by (simp add: dictwriter_writeheader_def dictwriter_writerow_def
        writer_writerow_def csv_field_def comp_def)
  show ?thesis
    by (simp add: write_csv_def header write_rows_ignore)
qed

lemma project_extra:
  "project columns (filter (\<lambda>kv. fst kv \<in> set columns) row) = project columns row"
proof -
  have "map_of (filter (\<lambda>kv. fst kv \<in> set columns) row) c = map_of row c" if "c \<in> set columns" for c
    using that by (induction row) auto
  then show ?thesis by (simp add: project_def)
qed

lemma write_cleaned_lines:
  "write_cleaned f0 prows = f0 @ map (map csv_field) prows"
proof (induction prows arbitrary: f0)
  case Nil
  show ?case by simp
next
  case (Cons r rs)
  have "map (csv_field \<circ> clean_value) r = map csv_field r"
    by (rule map_cong) (auto simp: csv_field_def clean_value_def split: pyval.splits)
  then show ?case by (simp add: Cons writer_writerow_def)
qed

text \<open>
  C7.  For every column list and every list of rows, \<open>write_csv\<close> writes the header, which
  is the column names in schema order, and then one line per row, in order.  The line of a
  row has one field per column, in the order of the columns: the field of the row under
  that name, empty when the row has no such field or the field is \<open>None\<close>.  Fields of the
  row under other names do not reach the line: dropping them from the row leaves the line
  as it is.  \<open>write_csv\<close> never fails.  The sink of \<open>export_view_to_csv\<close> writes the header
  and one line per (positional) row likewise, \<open>None\<close> as the empty field.
\<close>

theorem csv_sink:
  "write_csv columns rs = Inr (columns # map (project columns) rs)
   \<and> length (columns # map (project columns) rs) = 1 + length rs
   \<and> length (project columns row) = length columns
   \<and> project columns (filter (\<lambda>kv. fst kv \<in> set columns) row) = project columns row
   \<and> (\<forall>i < length columns.
          project columns row ! i =
            (case map_of row (columns ! i) of
               None \<Rightarrow> [] | Some PyNone \<Rightarrow> [] | Some (PyStr s) \<Rightarrow> s
             | Some (PyInt n) \<Rightarrow> py_str_int n))
   \<and> export_rows columns prows = columns # map (map csv_field) prows
   \<and> csv_field PyNone = []"
proof -
  have cell: "project columns row ! i =
      (case map_of row (columns ! i) of
         None \<Rightarrow> [] | Some PyNone \<Rightarrow> [] | Some (PyStr s) \<Rightarrow> s | Some (PyInt n) \<Rightarrow> py_str_int n)"
    if "i < length columns" for i
    using that by (simp add: project_def csv_field_def split: option.splits pyval.splits)
  have len: "length (project columns row) = length columns"
    by (simp add: project_def)
  have export: "export_rows columns prows = columns # map (map csv_field) prows"
    by (simp add: export_rows_def write_cleaned_lines writer_writerow_def csv_field_def comp_def)
  show ?thesis
    using write_csv_lines [of columns rs] cell len export project_extra [of columns row]
    by (simp add: csv_field_def)
qed

theorem csv_sink_witness:
  "write_csv [''id'', ''name'', ''note'']
     [[(''name'', PyStr ''a,b''), (''extra'', PyInt 5), (''id'', PyInt 42), (''note'', PyNone)],
      [(''id'', PyInt (- 7))]]
   = Inr [[''id'', ''name'', ''note''], [''42'', ''a,b'', []], [''-7'', [], []]]"
proof -
  have one: "project [''id'', ''name'', ''note'']
      [(''name'', PyStr ''a,b''), (''extra'', PyInt 5), (''id'', PyInt 42), (''note'', PyNone)]
    = [''42'', ''a,b'', []]" by code_simp
  have two: "project [''id'', ''name'', ''note''] [(''id'', PyInt (- 7))] = [''-7'', [], []]"
    by code_simp
  show ?thesis
    using csv_sink [of "[''id'', ''name'', ''note'']"
      "[[(''name'', PyStr ''a,b''), (''extra'', PyInt 5), (''id'', PyInt 42), (''note'', PyNone)],
        [(''id'', PyInt (- 7))]]"]
    by (simp add: one two)
qed

section \<open>Properties of the batch export\<close>

lemma batch_loop_counts:
  "success_count (batch_loop export path_of vs b) + failed_count (batch_loop export path_of vs b)
     = success_count b + failed_count b + length vs"
  by (induction vs arbitrary: b) (auto simp: Let_def)

lemma batch_loop_attempted:
  "map fst (attempted (batch_loop export path_of vs b)) = map fst (attempted b) @ vs"
  by (induction vs arbitrary: b) (auto simp: Let_def)

lemma batch_loop_failed:
  "failed_count b = length (filter (\<lambda>a. \<not> snd a) (attempted b)) \<Longrightarrow>
   failed_count (batch_loop export path_of vs b) =
     length (filter (\<lambda>a. \<not> snd a) (attempted (batch_loop export path_of vs b)))"
  by (induction vs arbitrary: b) (auto simp: Let_def)

lemma batch_loop_outcomes:
  "attempted (batch_loop export path_of vs b) =
     attempted b @ map (\<lambda>(i, v). (v, export i v (path_of v)))
                     (zip [length (attempted b)..<length (attempted b) + length vs] vs)"
proof (induction vs arbitrary: b)
  case Nil
  show ?case by simp
next
  case (Cons v vs)
  have upt: "[length (attempted b)..<length (attempted b) + length (v # vs)] =
      length (attempted b) # [Suc (length (attempted b))..<Suc (length (attempted b)) + length vs]"
  proof -
    have "[length (attempted b)..<length (attempted b) + length (v # vs)] =
        length (attempted b) # [Suc (length (attempted b))..<length (attempted b) + length (v # vs)]"
      by (rule upt_conv_Cons) simp
    moreover have "length (attempted b) + length (v # vs) = Suc (length (attempted b)) + length vs"
      by simp
    ultimately show ?thesis by (simp only:)
  qed
  show ?case
    by (simp only: upt) (simp add: Let_def Cons)
qed

text \<open>
  C8.  Once the configuration is loaded and the connection is made, a batch over \<open>N\<close>
  views tries every one of them, in order, whatever the earlier ones did; the counts of
  successes and failures add up to \<open>N\<close>; the failure count \<open>K\<close> is the number of attempts
  that answered \<open>False\<close>; and the exit code is non-zero exactly when \<open>K \<ge> 1\<close>.
\<close>

theorem run_batch_export_counts:
  assumes "config = Inr u" and "conn_ok"
  shows "\<exists>code b. run_batch_export config conn_ok export path_of view_names = (code, b)
     \<and> attempted b = map (\<lambda>(i, v). (v, export i v (path_of v))) (zip [0..<length view_names] view_names)
     \<and> map fst (attempted b) = view_names
     \<and> success_count b + failed_count b = length view_names
     \<and> failed_count b = length (filter (\<lambda>a. \<not> snd a) (attempted b))
     \<and> (code \<noteq> 0 \<longleftrightarrow> failed_count b \<ge> 1)"
proof -
  let ?init = "\<lparr>attempted = [], success_count = 0, failed_count = 0\<rparr>"
  let ?final = "batch_loop export path_of view_names ?init"
  have run: "run_batch_export config conn_ok export path_of view_names =
      (if failed_count ?final > 0 then 1 else 0, ?final)"
    using assms by (simp add: run_batch_export_def Let_def)
  have a: "attempted ?final = map (\<lambda>(i, v). (v, export i v (path_of v))) (zip [0..<length view_names] view_names)"
    using batch_loop_outcomes [where export = export and path_of = path_of and vs = view_names and b = ?init] by simp
  have b: "map fst (attempted ?final) = view_names"
    using batch_loop_attempted [where export = export and path_of = path_of and vs = view_names and b = ?init] by simp
  have c: "success_count ?final + failed_count ?final = length view_names"
    using batch_loop_counts [where export = export and path_of = path_of and vs = view_names and b = ?init] by simp
  have d: "failed_count ?final = length (filter (\<lambda>a. \<not> snd a) (attempted ?final))"
    by (rule batch_loop_failed) simp
  have e: "(if failed_count ?final > 0 then (1::nat) else 0) \<noteq> 0 \<longleftrightarrow> failed_count ?final \<ge> 1"
    by simp
  show ?thesis
    unfolding run using a b c d e by blast
qed

theorem run_batch_export_counts_witness: "run_batch_export (Inr ()) True (\<lambda>n v p. v \<noteq> ''dbo.B'') (\<lambda>v. ''exports/'' @ v)
    [''dbo.A'', ''dbo.B'', ''dbo.C'']
  = (1, \<lparr>attempted = [(''dbo.A'', True), (''dbo.B'', False), (''dbo.C'', True)],
         success_count = 2, failed_count = 1\<rparr>)"
  using run_batch_export_counts [of "Inr ()" "()" True "\<lambda>n v p. v \<noteq> ''dbo.B''"
     "\<lambda>v. ''exports/'' @ v" "[''dbo.A'', ''dbo.B'', ''dbo.C'']"]
  by (simp add: run_batch_export_def Let_def)

section \<open>Properties of \<open>load_config\<close>\<close>

lemma missing_keys_set:
  "set (missing_keys required env) = {k \<in> set required. env k = None \<or> env k = Some []}"
  by (auto simp: missing_keys_def)

lemma missing_keys_nonempty:
  "missing_keys required env \<noteq> [] \<longleftrightarrow> (\<exists>k\<in>set required. env k = None \<or> env k = Some [])"
  by (auto simp: missing_keys_def filter_empty_conv)

text \<open>
  C9.  Let the file parse to the environment \<open>env\<close> (values with their quotes stripped).
  In both scripts \<open>load_config\<close> fails exactly when some required key is absent from
  \<open>env\<close> or maps to the empty string, and the error then lists exactly those required
  keys, in the order of the required list.
\<close>

theorem load_config_missing:
  assumes "parse_env_file file = Inr env"
  shows "((\<exists>e. dremio_load_config file = Inl e)
            \<longleftrightarrow> (\<exists>k\<in>set dremio_required. env k = None \<or> env k = Some []))
       \<and> (\<forall>e. dremio_load_config file = Inl e
            \<longrightarrow> e = MissingVariables (filter (\<lambda>k. env k = None \<or> env k = Some []) dremio_required))
       \<and> ((\<exists>e. sqlserver_load_config file = Inl e)
            \<longleftrightarrow> (\<exists>k\<in>set sqlserver_required. env k = None \<or> env k = Some []))
       \<and> (\<forall>e. sqlserver_load_config file = Inl e
            \<longrightarrow> e = MissingVariables (filter (\<lambda>k. env k = None \<or> env k = Some []) sqlserver_required))"
proof -
  have d: "dremio_load_config file =
      (if missing_keys dremio_required env \<noteq> []
       then Inl (MissingVariables (missing_keys dremio_required env))
       else Inr (env(''DREMIO_BASE_URL'' \<mapsto>
              rstrip_chars (\<lambda>c. c = CHR ''/'') (the (env ''DREMIO_BASE_URL'')))))"
    using assms by (simp add: dremio_load_config_def Let_def)
  have s: "sqlserver_load_config file =
      (if missing_keys sqlserver_required env \<noteq> []
       then Inl (MissingVariables (missing_keys sqlserver_required env))
       else Inr (setdefault ''OUTPUT_DIR'' ''./exports''
              (setdefault ''TRUST_SERVER_CERTIFICATE'' ''Yes''
                (setdefault ''SQL_PORT'' ''1433'' env))))"
    using assms by (simp add: sqlserver_load_config_def Let_def)
  have m: "missing_keys required env = filter (\<lambda>k. env k = None \<or> env k = Some []) required"
    for required by (simp add: missing_keys_def)
  show ?thesis
    unfolding d s by (auto simp: missing_keys_nonempty m [symmetric])
qed

theorem load_config_missing_witness:
  "dremio_load_config (Some [''# settings'', ''DREMIO_BASE_URL = '' @ [dquote, dquote],
       ''NOTE=x'']) = Inl (MissingVariables [''DREMIO_BASE_URL'', ''DREMIO_API_KEY''])"
proof -
  let ?lines = "[''# settings'', ''DREMIO_BASE_URL = '' @ [dquote, dquote], ''NOTE=x'']"
  define env where "env = fold parse_line ?lines Map.empty"
  have p: "parse_env_file (Some ?lines) = Inr env" by (simp add: parse_env_file_def env_def)
  have url: "env ''DREMIO_BASE_URL'' = Some []" unfolding env_def by code_simp
  have key: "env ''DREMIO_API_KEY'' = None" unfolding env_def by code_simp
  have k: "filter (\<lambda>k. env k = None \<or> env k = Some []) dremio_required
      = [''DREMIO_BASE_URL'', ''DREMIO_API_KEY'']"
    by (simp add: dremio_required_def url key)
  have ex: "\<exists>k\<in>set dremio_required. env k = None \<or> env k = Some []"
    by (simp add: dremio_required_def key)
  from load_config_missing [OF p] ex obtain e
    where e: "dremio_load_config (Some ?lines) = Inl e" by blast
  with load_config_missing [OF p]
  have "e = MissingVariables (filter (\<lambda>k. env k = None \<or> env k = Some []) dremio_required)"
    by blast
  with e k show ?thesis by (simp only:)
qed

section \<open>Properties of the search statement\<close>

lemma lower_char_squote: "lower_char c = squote \<longleftrightarrow> c = squote"
proof -
  define n where "n = (of_char c :: nat)"
  show ?thesis
  proof (cases "(65 \<le> n \<and> n \<le> 90) \<or> (192 \<le> n \<and> n \<le> 222 \<and> n \<noteq> 215)")
    case True
    then have low: "lower_char c = char_of (n + 32)"
      unfolding lower_char_def n_def Let_def by (simp only: if_True)
    have "(of_char (char_of (n + 32) :: char) :: nat) = (n + 32) mod 256"
      by (rule of_char_of)
    also have "(n + 32) mod 256 = n + 32" using True by (intro mod_less) linarith
    finally have code: "(of_char (lower_char c) :: nat) = n + 32" by (simp only: low)
    have sq: "(of_char squote :: nat) = 39" by (simp add: squote_def)
    have "lower_char c \<noteq> squote"
    proof
      assume "lower_char c = squote"
      with code sq have "n + 32 = 39" by (simp only:)
      with True show False by linarith
    qed
    moreover have "c \<noteq> squote"
    proof
      assume "c = squote"
      with sq have "n = 39" by (simp only: n_def)
      with True show False by linarith
    qed
    ultimately show ?thesis by (simp only: simp_thms)
  next
    case False
    then have "lower_char c = c"
      unfolding lower_char_def n_def Let_def by (simp only: if_False)
    then show ?thesis by (simp only:)
  qed
qed

lemma safe_keyword_chars:
  "safe_keyword keyword =
     concat (map (\<lambda>c. if c = squote then [squote, squote] else [lower_char c]) keyword)"
proof -
  have sq: "lower_char squote = squote" by (simp only: lower_char_squote)
  have "map lower_char (concat (map (\<lambda>x. if x = squote then [squote, squote] else [x]) keyword)) =
      concat (map (\<lambda>c. if c = squote then [squote, squote] else [lower_char c]) keyword)"
    by (induction keyword) (simp_all add: sq)
  then show ?thesis by (simp only: safe_keyword_def py_lower_def py_double_def)
qed

lemma safe_keyword_double: "safe_keyword keyword = py_double squote (py_lower keyword)"
proof -
  have "map lower_char (concat (map (\<lambda>x. if x = squote then [squote, squote] else [x]) keyword)) =
      concat (map (\<lambda>x. if x = squote then [squote, squote] else [x]) (map lower_char keyword))"
    by (induction keyword) (simp_all add: lower_char_squote)
  then show ?thesis by (simp only: safe_keyword_def py_lower_def py_double_def)
qed

lemma scan_outside_skip:
  "squote \<notin> set u \<Longrightarrow> scan_outside (u @ rest) lits = scan_outside rest lits"
  by (induction u) auto

lemma scan_inside_plain:
  "squote \<notin> set u \<Longrightarrow> scan_inside (u @ rest) cur lits = scan_inside rest (cur @ u) lits"
  by (induction u arbitrary: cur) auto

lemma scan_inside_doubled:
  "scan_inside (py_double squote s @ rest) cur lits = scan_inside rest (cur @ s) lits"
  by (induction s arbitrary: cur) (auto simp: py_double_def)

lemma scan_inside_close:
  "d \<noteq> squote \<Longrightarrow> scan_inside (squote # d # rest) cur lits = scan_outside rest (lits @ [cur])"
  by simp

lemma scan_literal:
  assumes "squote \<notin> set a" and "squote \<notin> set b" and "d \<noteq> squote"
  shows "scan_inside (a @ py_double squote s @ b @ squote # d # rest) [] lits =
         scan_outside rest (lits @ [a @ s @ b])"
  using assms
  by (simp add: scan_inside_plain scan_inside_doubled)

text \<open>
  C10.  For every keyword, the keyword enters the statement character by character, each
  one lowercased and each single quote doubled.  Read as SQL, the statement has exactly
  two string literals, both the pattern \<open>%keyword%\<close> with the keyword lowercased (its
  quotes are characters of the literal), and it does not end inside a literal: its quoting
  is balanced.
\<close>

theorem search_sql_quoting:
  "safe_keyword keyword =
     concat (map (\<lambda>c. if c = squote then [squote, squote] else [lower_char c]) keyword)
   \<and> sql_literals (search_sql keyword)
       = Some [''%'' @ py_lower keyword @ ''%'', ''%'' @ py_lower keyword @ ''%'']
   \<and> balanced (search_sql keyword)"
proof -
  let ?a = "''SELECT TABLE_SCHEMA, TABLE_NAME, TABLE_TYPE '' @
     ''FROM INFORMATION_SCHEMA.'' @ [dquote] @ ''TABLES'' @ [dquote] @ '' '' @
     ''WHERE LOWER(TABLE_NAME) LIKE ''"
  let ?b = "''OR LOWER(TABLE_SCHEMA) LIKE ''"
  let ?c = "''ORDER BY TABLE_SCHEMA, TABLE_NAME''"
  let ?d = "py_double squote (py_lower keyword)"
  let ?p = "''%'' @ py_lower keyword @ ''%''"
  have a: "squote \<notin> set ?a" by (simp add: squote_def dquote_def)
  have b: "squote \<notin> set ?b" by (simp add: squote_def)
  have c: "squote \<notin> set ?c" by (simp add: squote_def)
  have pc: "squote \<notin> set ''%''" and sp: "CHR '' '' \<noteq> squote" by (simp_all add: squote_def)
  have shape: "search_sql keyword =
      ?a @ squote # (''%'' @ ?d @ ''%'' @ squote # CHR '' '' #
        (?b @ squote # (''%'' @ ?d @ ''%'' @ squote # CHR '' '' # (?c @ []))))"
    by (simp add: search_sql_def safe_keyword_double)
  have "sql_literals (search_sql keyword) = scan_outside (squote # (''%'' @ ?d @ ''%'' @ squote # CHR '' '' #
        (?b @ squote # (''%'' @ ?d @ ''%'' @ squote # CHR '' '' # (?c @ []))))) []"
    unfolding sql_literals_def shape using a by (rule scan_outside_skip)
  also have "\<dots> = scan_inside (''%'' @ ?d @ ''%'' @ squote # CHR '' '' #
        (?b @ squote # (''%'' @ ?d @ ''%'' @ squote # CHR '' '' # (?c @ [])))) [] []"
    by simp
  also have "\<dots> = scan_outside (?b @ squote # (''%'' @ ?d @ ''%'' @ squote # CHR '' '' # (?c @ []))) ([] @ [?p])"
    using pc pc sp by (rule scan_literal)
  also have "\<dots> = scan_outside (squote # (''%'' @ ?d @ ''%'' @ squote # CHR '' '' # (?c @ []))) ([] @ [?p])"
    using b by (rule scan_outside_skip)
  also have "\<dots> = scan_inside (''%'' @ ?d @ ''%'' @ squote # CHR '' '' # (?c @ [])) [] ([] @ [?p])"
    by simp
  also have "\<dots> = scan_outside (?c @ []) (([] @ [?p]) @ [?p])"
    using pc pc sp by (rule scan_literal)
  also have "\<dots> = scan_outside [] (([] @ [?p]) @ [?p])"
    using c by (rule scan_outside_skip)
  finally have lits: "sql_literals (search_sql keyword) = Some [?p, ?p]" by simp
  then have "balanced (search_sql keyword)" by (simp add: balanced_def)
  with lits safe_keyword_chars [of keyword] show ?thesis by (simp only: simp_thms)
qed

theorem search_sql_quoting_witness:
  "sql_literals (search_sql (''O'' @ [squote] @ ''Neil''))
     = Some [''%o'' @ [squote] @ ''neil%'', ''%o'' @ [squote] @ ''neil%'']
   \<and> balanced (search_sql (''O'' @ [squote] @ ''Neil''))"
proof -
  have "py_lower (''O'' @ [squote] @ ''Neil'') = ''o'' @ [squote] @ ''neil''" by code_simp
  with search_sql_quoting [of "''O'' @ [squote] @ ''Neil''"] show ?thesis by simp
qed

end
